theory Spec2Isabelle
  imports Main
begin

section \<open>Data model of the shlex tokenizer\<close>

text \<open>
  The repository holds two snapshots of the same Go file: \<^verbatim>\<open>src/shlex.go\<close> (constants
  written \<^verbatim>\<open>RUNE_CHAR\<close>, \<^verbatim>\<open>STATE_START\<close>, ...) and \<^verbatim>\<open>src/unnamed/part_000\<close> (constants
  written \<^verbatim>\<open>charRunes\<close>, \<^verbatim>\<open>startState\<close>, ...). Apart from the renaming of identifiers, the
  two files differ in one place only: the string of ordinary runes. The enumerations and the
  state machine are therefore embedded once, under the names of \<^verbatim>\<open>part_000\<close>, and the
  classifier is a parameter of the scanner, as it is a field of the Go \<^verbatim>\<open>Tokenizer\<close>.

  A Go \<^verbatim>\<open>rune\<close> is a Unicode code point. The input of the tokenizer is the sequence of
  runes that \<^verbatim>\<open>bufio.Reader.ReadRune\<close> delivers, followed by \<^verbatim>\<open>io.EOF\<close>; a reader that
  fails with another error is outside this model (\<^verbatim>\<open>strings.Reader\<close>, which \<^verbatim>\<open>Split\<close> uses,
  never does). A token's text is kept as the rune sequence that \<^verbatim>\<open>string(value)\<close> encodes.
\<close>

type_synonym rune = int

definition runes :: "string \<Rightarrow> rune list" where
  "runes s = map of_char s"

datatype TokenType = UnknownToken | WordToken | SpaceToken | CommentToken

datatype runeTokenClass =
    unknownRuneClass
  | charRuneClass
  | spaceRuneClass
  | escapingQuoteRuneClass
  | nonEscapingQuoteRuneClass
  | escapeRuneClass
  | commentRuneClass
  | eofRuneClass

datatype lexerState =
    startState
  | inWordState
  | escapingState
  | escapingQuotedState
  | quotingEscapingState
  | quotingState
  | commentState

record Token =
  tokenType :: TokenType
  tokenValue :: "rune list"

text \<open>
  The errors of the package: \<^verbatim>\<open>io.EOF\<close>, the three \<^verbatim>\<open>fmt.Errorf\<close> messages of
  \<^verbatim>\<open>scanStream\<close>, the one of the lexer, and the nil dereference that \<^verbatim>\<open>token.tokenType\<close>
  would raise on a nil token returned without an error.
\<close>

datatype error =
    EOF
  | UnknownRune rune
  | EOFAfterEscape
  | EOFExpectingQuote
  | UnknownTokenType TokenType
  | NilTokenPanic

section \<open>Character classifier\<close>

definition charRunes :: "rune list" where
  "charRunes = runes ''abcdefghijklmnopqrstuvwxyzABCDEFGHIJKLMNOPQRSTUVWXYZ0123456789._-,|''"

text \<open>The same constant in \<^verbatim>\<open>src/shlex.go\<close>, where it has no pipe character.\<close>

definition RUNE_CHAR :: "rune list" where
  "RUNE_CHAR = runes ''abcdefghijklmnopqrstuvwxyzABCDEFGHIJKLMNOPQRSTUVWXYZ0123456789._-,''"

definition spaceRunes :: "rune list" where
  "spaceRunes = runes [CHR '' '', CHR 0x09, CHR 0x0D, CHR 0x0A]"

definition escapingQuoteRunes :: "rune list" where
  "escapingQuoteRunes = runes [CHR 0x22]"

definition nonEscapingQuoteRunes :: "rune list" where
  "nonEscapingQuoteRunes = runes [CHR 0x27]"

definition escapeRunes :: "rune list" where
  "escapeRunes = runes [CHR 0x5C]"

definition commentRunes :: "rune list" where
  "commentRunes = runes ''#''"

record tokenClassifier =
  typeMap :: "rune \<rightharpoonup> runeTokenClass"

text \<open>\<^verbatim>\<open>addRuneClass\<close> stores the class under every rune of the string, in order.\<close>

definition addRuneClass ::
  "(rune \<rightharpoonup> runeTokenClass) \<Rightarrow> rune list \<Rightarrow> runeTokenClass \<Rightarrow> (rune \<rightharpoonup> runeTokenClass)" where
  "addRuneClass m rs tokenClass = fold (\<lambda>runeChar m'. m'(runeChar \<mapsto> tokenClass)) rs m"

text \<open>
  The body of \<^verbatim>\<open>NewDefaultClassifier\<close>: an empty map to which the six classes are added in
  the order of the source. The string of ordinary runes is a parameter, since it is the one
  place where the two files differ.
\<close>

definition defaultClassifierOver :: "rune list \<Rightarrow> tokenClassifier" where
  "defaultClassifierOver ordinary =
     (let m0 = Map.empty;
          m1 = addRuneClass m0 ordinary charRuneClass;
          m2 = addRuneClass m1 spaceRunes spaceRuneClass;
          m3 = addRuneClass m2 escapingQuoteRunes escapingQuoteRuneClass;
          m4 = addRuneClass m3 nonEscapingQuoteRunes nonEscapingQuoteRuneClass;
          m5 = addRuneClass m4 escapeRunes escapeRuneClass;
          m6 = addRuneClass m5 commentRunes commentRuneClass
      in \<lparr>typeMap = m6\<rparr>)"

text \<open>\<^verbatim>\<open>NewDefaultClassifier\<close> of \<^verbatim>\<open>part_000\<close>, and the one of \<^verbatim>\<open>shlex.go\<close>.\<close>

definition NewDefaultClassifier :: tokenClassifier where
  "NewDefaultClassifier = defaultClassifierOver charRunes"

definition NewDefaultClassifier_shlex_go :: tokenClassifier where
  "NewDefaultClassifier_shlex_go = defaultClassifierOver RUNE_CHAR"

text \<open>A Go map read of a missing key gives the zero value, \<^verbatim>\<open>unknownRuneClass\<close>.\<close>

definition ClassifyRune :: "tokenClassifier \<Rightarrow> rune \<Rightarrow> runeTokenClass" where
  "ClassifyRune classifier runeVal =
     (case typeMap classifier runeVal of None \<Rightarrow> unknownRuneClass | Some c \<Rightarrow> c)"

section \<open>Tokenizer: the state machine of \<^verbatim>\<open>scanStream\<close>\<close>

text \<open>
  \<^verbatim>\<open>scan\<close> is the labelled loop \<^verbatim>\<open>SCAN\<close> of \<^verbatim>\<open>scanStream\<close>. Its arguments are the
  tokenizer's classifier, the loop's local variables \<^verbatim>\<open>state\<close>, \<^verbatim>\<open>tokenType\<close> and
  \<^verbatim>\<open>value\<close>, and the runes the reader has not delivered yet. The result is the pair
  \<^verbatim>\<open>(*Token, error)\<close> that the Go function returns (a nil pointer and a nil error are
  \<open>None\<close>), with the runes left in the reader.

  The first equation is the iteration in which \<^verbatim>\<open>ReadRune\<close> answers \<^verbatim>\<open>io.EOF\<close>:
  \<^verbatim>\<open>nextRuneType\<close> is set to \<^verbatim>\<open>eofRuneClass\<close> and \<^verbatim>\<open>err\<close> to nil. The second is an
  iteration that reads \<^verbatim>\<open>nextRune\<close>. A \<^verbatim>\<open>break SCAN\<close> reaches the end of the function,
  which builds the token from \<^verbatim>\<open>tokenType\<close> and \<^verbatim>\<open>value\<close> and returns it with \<^verbatim>\<open>err\<close>.
  \<^verbatim>\<open>UnreadRune\<close> puts \<^verbatim>\<open>nextRune\<close> back in front of the remaining input.
\<close>

fun scan ::
  "tokenClassifier \<Rightarrow> lexerState \<Rightarrow> TokenType \<Rightarrow> rune list \<Rightarrow> rune list
     \<Rightarrow> Token option \<times> error option \<times> rune list" where
  "scan c state tt v [] =
     (case state of
        startState \<Rightarrow> (None, Some EOF, [])
      | inWordState \<Rightarrow> (Some \<lparr>tokenType = tt, tokenValue = v\<rparr>, None, [])
      | escapingState \<Rightarrow> (Some \<lparr>tokenType = tt, tokenValue = v\<rparr>, Some EOFAfterEscape, [])
      | escapingQuotedState \<Rightarrow> (Some \<lparr>tokenType = tt, tokenValue = v\<rparr>, Some EOFAfterEscape, [])
      | quotingEscapingState \<Rightarrow> (Some \<lparr>tokenType = tt, tokenValue = v\<rparr>, Some EOFExpectingQuote, [])
      | quotingState \<Rightarrow> (Some \<lparr>tokenType = tt, tokenValue = v\<rparr>, Some EOFExpectingQuote, [])
      | commentState \<Rightarrow> (Some \<lparr>tokenType = tt, tokenValue = v\<rparr>, None, []))"
| "scan c state tt v (nextRune # rest) =
     (case state of
        startState \<Rightarrow>
          (case ClassifyRune c nextRune of
             eofRuneClass \<Rightarrow> (None, Some EOF, rest)
           | charRuneClass \<Rightarrow> scan c inWordState WordToken (v @ [nextRune]) rest
           | spaceRuneClass \<Rightarrow> scan c startState tt v rest
           | escapingQuoteRuneClass \<Rightarrow> scan c quotingEscapingState WordToken v rest
           | nonEscapingQuoteRuneClass \<Rightarrow> scan c quotingState WordToken v rest
           | escapeRuneClass \<Rightarrow> scan c escapingState WordToken v rest
           | commentRuneClass \<Rightarrow> scan c commentState CommentToken v rest
           | unknownRuneClass \<Rightarrow> (None, Some (UnknownRune nextRune), rest))
      | inWordState \<Rightarrow>
          (case ClassifyRune c nextRune of
             eofRuneClass \<Rightarrow> (Some \<lparr>tokenType = tt, tokenValue = v\<rparr>, None, rest)
           | charRuneClass \<Rightarrow> scan c inWordState tt (v @ [nextRune]) rest
           | commentRuneClass \<Rightarrow> scan c inWordState tt (v @ [nextRune]) rest
           | spaceRuneClass \<Rightarrow> (Some \<lparr>tokenType = tt, tokenValue = v\<rparr>, None, nextRune # rest)
           | escapingQuoteRuneClass \<Rightarrow> scan c quotingEscapingState tt v rest
           | nonEscapingQuoteRuneClass \<Rightarrow> scan c quotingState tt v rest
           | escapeRuneClass \<Rightarrow> scan c escapingState tt v rest
           | unknownRuneClass \<Rightarrow> (None, Some (UnknownRune nextRune), rest))
      | escapingState \<Rightarrow>
          (case ClassifyRune c nextRune of
             eofRuneClass \<Rightarrow> (Some \<lparr>tokenType = tt, tokenValue = v\<rparr>, Some EOFAfterEscape, rest)
           | unknownRuneClass \<Rightarrow> (None, Some (UnknownRune nextRune), rest)
           | _ \<Rightarrow> scan c inWordState tt (v @ [nextRune]) rest)
      | escapingQuotedState \<Rightarrow>
          (case ClassifyRune c nextRune of
             eofRuneClass \<Rightarrow> (Some \<lparr>tokenType = tt, tokenValue = v\<rparr>, Some EOFAfterEscape, rest)
           | unknownRuneClass \<Rightarrow> (None, Some (UnknownRune nextRune), rest)
           | _ \<Rightarrow> scan c quotingEscapingState tt (v @ [nextRune]) rest)
      | quotingEscapingState \<Rightarrow>
          (case ClassifyRune c nextRune of
             eofRuneClass \<Rightarrow> (Some \<lparr>tokenType = tt, tokenValue = v\<rparr>, Some EOFExpectingQuote, rest)
           | charRuneClass \<Rightarrow> scan c quotingEscapingState tt (v @ [nextRune]) rest
           | spaceRuneClass \<Rightarrow> scan c quotingEscapingState tt (v @ [nextRune]) rest
           | nonEscapingQuoteRuneClass \<Rightarrow> scan c quotingEscapingState tt (v @ [nextRune]) rest
           | commentRuneClass \<Rightarrow> scan c quotingEscapingState tt (v @ [nextRune]) rest
           | escapingQuoteRuneClass \<Rightarrow> scan c inWordState tt v rest
           | escapeRuneClass \<Rightarrow> scan c escapingQuotedState tt v rest
           | unknownRuneClass \<Rightarrow> (None, Some (UnknownRune nextRune), rest))
      | quotingState \<Rightarrow>
          (case ClassifyRune c nextRune of
             eofRuneClass \<Rightarrow> (Some \<lparr>tokenType = tt, tokenValue = v\<rparr>, Some EOFExpectingQuote, rest)
           | charRuneClass \<Rightarrow> scan c quotingState tt (v @ [nextRune]) rest
           | spaceRuneClass \<Rightarrow> scan c quotingState tt (v @ [nextRune]) rest
           | escapingQuoteRuneClass \<Rightarrow> scan c quotingState tt (v @ [nextRune]) rest
           | escapeRuneClass \<Rightarrow> scan c quotingState tt (v @ [nextRune]) rest
           | commentRuneClass \<Rightarrow> scan c quotingState tt (v @ [nextRune]) rest
           | nonEscapingQuoteRuneClass \<Rightarrow> scan c inWordState tt v rest
           | unknownRuneClass \<Rightarrow> (None, Some (UnknownRune nextRune), rest))
      | commentState \<Rightarrow>
          (case ClassifyRune c nextRune of
             eofRuneClass \<Rightarrow> (Some \<lparr>tokenType = tt, tokenValue = v\<rparr>, None, rest)
           | charRuneClass \<Rightarrow> scan c commentState tt (v @ [nextRune]) rest
           | escapingQuoteRuneClass \<Rightarrow> scan c commentState tt (v @ [nextRune]) rest
           | escapeRuneClass \<Rightarrow> scan c commentState tt (v @ [nextRune]) rest
           | commentRuneClass \<Rightarrow> scan c commentState tt (v @ [nextRune]) rest
           | nonEscapingQuoteRuneClass \<Rightarrow> scan c commentState tt (v @ [nextRune]) rest
           | spaceRuneClass \<Rightarrow>
               (if nextRune = 10 then (Some \<lparr>tokenType = tt, tokenValue = v\<rparr>, None, rest)
                else scan c commentState tt (v @ [nextRune]) rest)
           | unknownRuneClass \<Rightarrow> (None, Some (UnknownRune nextRune), rest)))"

text \<open>
  \<^verbatim>\<open>scanStream\<close> enters the loop with \<^verbatim>\<open>state := startState\<close>, the zero \<^verbatim>\<open>tokenType\<close> and
  an empty \<^verbatim>\<open>value\<close>; \<^verbatim>\<open>Tokenizer.Next\<close> (\<^verbatim>\<open>NextToken\<close> in \<^verbatim>\<open>shlex.go\<close>) only calls it.
\<close>

definition scanStream ::
  "tokenClassifier \<Rightarrow> rune list \<Rightarrow> Token option \<times> error option \<times> rune list" where
  "scanStream c inp = scan c startState UnknownToken [] inp"

text \<open>A token returned with a nil error has consumed input.\<close>

lemma scan_shrinks:
  "scan c state tt v inp = (Some tok, None, rest) \<Longrightarrow>
     length rest \<le> length inp \<and> (state = startState \<longrightarrow> length rest < length inp)"
proof (induction inp arbitrary: state tt v)
  case Nil
  then show ?case by (cases state) simp_all
next
  case (Cons r inp)
  have IH: "\<And>s t w. scan c s t w inp = (Some tok, None, rest) \<Longrightarrow> length rest \<le> length inp"
    using Cons.IH by blast
  show ?case
  proof (cases state)
    case startState
    with Cons.prems show ?thesis
      by (cases "ClassifyRune c r") (auto dest: IH)
  next
    case inWordState
    with Cons.prems show ?thesis by (cases "ClassifyRune c r") (auto dest: IH)
  next
    case escapingState
    with Cons.prems show ?thesis by (cases "ClassifyRune c r") (auto dest: IH)
  next
    case escapingQuotedState
    with Cons.prems show ?thesis by (cases "ClassifyRune c r") (auto dest: IH)
  next
    case quotingEscapingState
    with Cons.prems show ?thesis by (cases "ClassifyRune c r") (auto dest: IH)
  next
    case quotingState
    with Cons.prems show ?thesis by (cases "ClassifyRune c r") (auto dest: IH)
  next
    case commentState
    with Cons.prems show ?thesis by (cases "ClassifyRune c r") (auto dest: IH split: if_splits)
  qed
qed

lemma scanStream_shrinks:
  "scanStream c inp = (Some tok, None, rest) \<Longrightarrow> length rest < length inp"
  unfolding scanStream_def by (drule scan_shrinks) simp

section \<open>Lexer and Split\<close>

text \<open>
  \<^verbatim>\<open>Lexer.Next\<close> (\<^verbatim>\<open>NextWord\<close> in \<^verbatim>\<open>shlex.go\<close>) loops over the tokenizer: an error ends
  it with the empty string, a word token is returned, a comment token is skipped, any other
  token type is an error. The result is the pair \<^verbatim>\<open>(string, error)\<close> of the Go function
  with the runes left in the reader. The loop terminates because a token returned without an
  error has consumed at least one rune.
\<close>

function Next :: "tokenClassifier \<Rightarrow> rune list \<Rightarrow> rune list \<times> error option \<times> rune list" where
  "Next c inp =
     (case scanStream c inp of (token, err, rest) \<Rightarrow>
        (case err of
           Some e \<Rightarrow> ([], Some e, rest)
         | None \<Rightarrow>
            (case token of
               None \<Rightarrow> ([], Some NilTokenPanic, rest)
             | Some tok \<Rightarrow>
                (case tokenType tok of
                   WordToken \<Rightarrow> (tokenValue tok, None, rest)
                 | CommentToken \<Rightarrow> Next c rest
                 | _ \<Rightarrow> ([], Some (UnknownTokenType (tokenType tok)), rest)))))"
  by pat_completeness auto
termination
  by (relation "measure (\<lambda>(c, inp). length inp)") (auto dest: scanStream_shrinks[OF sym])

declare Next.simps [simp del]

lemma Next_shrinks: "Next c inp = (word, None, rest) \<Longrightarrow> length rest < length inp"
proof (induction "length inp" arbitrary: inp rule: less_induct)
  case less
  obtain token err rest' where sc: "scanStream c inp = (token, err, rest')"
    by (cases "scanStream c inp") auto
  show ?case
  proof (cases "\<exists>tok. token = Some tok \<and> err = None \<and> tokenType tok = CommentToken")
    case True
    then obtain tok where t: "token = Some tok" "err = None" "tokenType tok = CommentToken"
      by blast
    from sc t have sh: "length rest' < length inp"
      by (auto dest: scanStream_shrinks)
    from sc t less.prems have "Next c rest' = (word, None, rest)"
      by (simp add: Next.simps[of c inp])
    from less.hyps[OF sh this] sh show ?thesis by simp
  next
    case False
    with sc less.prems have "token \<noteq> None \<and> err = None \<and> rest = rest'"
      by (auto simp add: Next.simps[of c inp] split: option.splits TokenType.splits)
    with sc show ?thesis by (auto dest: scanStream_shrinks)
  qed
qed

text \<open>
  The loop of \<^verbatim>\<open>Split\<close>, with its local variable \<^verbatim>\<open>subStrings\<close>: \<^verbatim>\<open>io.EOF\<close> ends it
  with a nil error, any other error ends it with that error, and in both cases the words
  appended so far are returned.
\<close>

function Split_loop ::
  "tokenClassifier \<Rightarrow> rune list \<Rightarrow> rune list list \<Rightarrow> rune list list \<times> error option" where
  "Split_loop c inp subStrings =
     (case Next c inp of (word, err, rest) \<Rightarrow>
        (case err of
           Some e \<Rightarrow> (if e = EOF then (subStrings, None) else (subStrings, Some e))
         | None \<Rightarrow> Split_loop c rest (subStrings @ [word])))"
  by pat_completeness auto
termination
  by (relation "measure (\<lambda>(c, inp, subStrings). length inp)") (auto dest: Next_shrinks[OF sym])

declare Split_loop.simps [simp del]

text \<open>
  \<^verbatim>\<open>Split\<close> of \<^verbatim>\<open>part_000\<close>, and \<^verbatim>\<open>Split\<close> of \<^verbatim>\<open>shlex.go\<close>: each builds a lexer whose
  tokenizer holds the default classifier of its own file, over a reader of the string. In
  \<^verbatim>\<open>shlex.go\<close> \<^verbatim>\<open>NewLexer\<close> also returns an error, which is always nil.
\<close>

definition Split :: "rune list \<Rightarrow> rune list list \<times> error option" where
  "Split s = Split_loop NewDefaultClassifier s []"

definition Split_shlex_go :: "rune list \<Rightarrow> rune list list \<times> error option" where
  "Split_shlex_go s = Split_loop NewDefaultClassifier_shlex_go s []"

section \<open>Notions used to state the properties\<close>

text \<open>
  \<^verbatim>\<open>Next_yields c inp ws rest\<close>: successive calls of \<^verbatim>\<open>Lexer.Next\<close> on a reader holding
  \<^verbatim>\<open>inp\<close> return the words \<^verbatim>\<open>ws\<close>, in this order and each with a nil error, and leave
  \<^verbatim>\<open>rest\<close> in the reader.
\<close>

fun Next_yields :: "tokenClassifier \<Rightarrow> rune list \<Rightarrow> rune list list \<Rightarrow> rune list \<Rightarrow> bool" where
  "Next_yields c inp [] rest = (rest = inp)"
| "Next_yields c inp (w # ws) rest =
     (case Next c inp of (word, err, mid) \<Rightarrow> err = None \<and> word = w \<and> Next_yields c mid ws rest)"

text \<open>
  The inside of a double-quoted span, for a default classifier: every rune is known to the
  classifier, a double quote (rune 34) occurs only after a backslash (rune 92), and a backslash
  is followed by a rune. \<^verbatim>\<open>dq_resolved\<close> is its text with the escapes resolved: each
  backslash is dropped and the rune after it is kept.
\<close>

fun dq_span :: "tokenClassifier \<Rightarrow> rune list \<Rightarrow> bool" where
  "dq_span c [] = True"
| "dq_span c [r] = (r \<noteq> 92 \<and> r \<noteq> 34 \<and> ClassifyRune c r \<noteq> unknownRuneClass)"
| "dq_span c (r # r' # rs) =
     (if r = 92 then ClassifyRune c r' \<noteq> unknownRuneClass \<and> dq_span c rs
      else r \<noteq> 34 \<and> ClassifyRune c r \<noteq> unknownRuneClass \<and> dq_span c (r' # rs))"

fun dq_resolved :: "rune list \<Rightarrow> rune list" where
  "dq_resolved [] = []"
| "dq_resolved [r] = [r]"
| "dq_resolved (r # r' # rs) =
     (if r = 92 then r' # dq_resolved rs else r # dq_resolved (r' # rs))"


definition unquoted_run :: "tokenClassifier \<Rightarrow> rune list \<Rightarrow> bool" where
  "unquoted_run c w =
     (\<forall>r \<in> set w. ClassifyRune c r = charRuneClass \<or> ClassifyRune c r = commentRuneClass)"

text \<open>
  The round trip re-joins the words with single spaces, as \<^verbatim>\<open>strings.Join(words, " ")\<close> does
  (rune 32 between consecutive words, nothing before the first or after the last).
\<close>

fun join_spaces :: "rune list list \<Rightarrow> rune list" where
  "join_spaces [] = []"
| "join_spaces [w] = w"
| "join_spaces (w # w' # ws) = w @ 32 # join_spaces (w' # ws)"

text \<open>
  An input with no quote and no escape: every rune is ordinary, whitespace or the comment
  marker. A plain word is what the lexer makes of such an input: a non-empty run of ordinary
  runes and comment markers that starts with an ordinary rune.
\<close>

definition needs_no_quoting :: "tokenClassifier \<Rightarrow> rune list \<Rightarrow> bool" where
  "needs_no_quoting c inp =
     (\<forall>r \<in> set inp. ClassifyRune c r = charRuneClass \<or> ClassifyRune c r = spaceRuneClass
        \<or> ClassifyRune c r = commentRuneClass)"

definition plain_word :: "tokenClassifier \<Rightarrow> rune list \<Rightarrow> bool" where
  "plain_word c w =
     (case w of [] \<Rightarrow> False | r # w' \<Rightarrow> ClassifyRune c r = charRuneClass \<and> unquoted_run c w')"

section \<open>The default classifiers\<close>

lemma addRuneClass_apply:
  "addRuneClass m rs t = (\<lambda>r. if r \<in> set rs then Some t else m r)"
  unfolding addRuneClass_def
  by (induction rs arbitrary: m) (auto simp: fun_eq_iff)

text \<open>
  The classes are added in the order ordinary, space, double quote, single quote, escape,
  comment, and a later class overwrites an earlier one.
\<close>

lemma ClassifyRune_defaultClassifierOver:
  "ClassifyRune (defaultClassifierOver ordinary) r =
     (if r = 35 then commentRuneClass
      else if r = 92 then escapeRuneClass
      else if r = 39 then nonEscapingQuoteRuneClass
      else if r = 34 then escapingQuoteRuneClass
      else if r = 32 \<or> r = 9 \<or> r = 13 \<or> r = 10 then spaceRuneClass
      else if r \<in> set ordinary then charRuneClass
      else unknownRuneClass)"
  by (simp add: ClassifyRune_def defaultClassifierOver_def addRuneClass_apply Let_def
      spaceRunes_def escapingQuoteRunes_def nonEscapingQuoteRunes_def escapeRunes_def
      commentRunes_def runes_def)

lemma set_RUNE_CHAR:
  "r \<in> set RUNE_CHAR \<longleftrightarrow>
     (97 \<le> r \<and> r \<le> 122) \<or> (65 \<le> r \<and> r \<le> 90) \<or> (48 \<le> r \<and> r \<le> 57)
     \<or> r = 46 \<or> r = 95 \<or> r = 45 \<or> r = 44"
  unfolding RUNE_CHAR_def runes_def by simp arith

lemma set_charRunes: "set charRunes = insert 124 (set RUNE_CHAR)"
  unfolding RUNE_CHAR_def charRunes_def runes_def by auto

text \<open>Facts that evaluate the lexer on a closed input.\<close>

lemmas default_eval =
  Split_def Split_shlex_go_def NewDefaultClassifier_def NewDefaultClassifier_shlex_go_def
  ClassifyRune_defaultClassifierOver Split_loop.simps Next.simps scanStream_def runes_def
  charRunes_def RUNE_CHAR_def

section \<open>Properties of the scanner\<close>

text \<open>
  C10. A quoted span with nothing inside gives a word whose text is empty, not the absence of a
  word: \<^verbatim>\<open>Split\<close> of two double quotes, and of two single quotes, is the one-element
  list holding the empty string, with a nil error (in both snapshots of the file).
\<close>

theorem Split_empty_quotes:
  "Split (runes [CHR 0x22, CHR 0x22]) = ([[]], None)
   \<and> Split (runes [CHR 0x27, CHR 0x27]) = ([[]], None)
   \<and> Split_shlex_go (runes [CHR 0x22, CHR 0x22]) = ([[]], None)
   \<and> Split_shlex_go (runes [CHR 0x27, CHR 0x27]) = ([[]], None)"
  by (simp add: default_eval)

text \<open>
  C8. In \<^verbatim>\<open>inWordState\<close> the comment marker \<^verbatim>\<open>#\<close> (rune 35) is appended to the word and
  the scan goes on in \<^verbatim>\<open>inWordState\<close> with the token type unchanged, so no comment is opened;
  a comment is opened by a marker read in \<^verbatim>\<open>startState\<close>, before any rune of a word. This
  holds for the default classifier over any string of ordinary runes, hence in both
  snapshots. For instance \<^verbatim>\<open>Split("a#b")\<close> is the single word \<^verbatim>\<open>a#b\<close>.
\<close>

theorem comment_marker_in_word_is_literal:
  "ClassifyRune (defaultClassifierOver ordinary) 35 = commentRuneClass
   \<and> scan (defaultClassifierOver ordinary) inWordState tt v (35 # rest)
       = scan (defaultClassifierOver ordinary) inWordState tt (v @ [35]) rest
   \<and> scan (defaultClassifierOver ordinary) startState tt v (35 # rest)
       = scan (defaultClassifierOver ordinary) commentState CommentToken v rest
   \<and> Split (runes ''a#b'') = ([runes ''a#b''], None)
   \<and> Split_shlex_go (runes ''a#b'') = ([runes ''a#b''], None)"
  by (simp add: default_eval)

text \<open>
  C5. In \<^verbatim>\<open>commentState\<close>, under the default classifier over any string of ordinary runes,
  the newline (rune 10) is the only rune that ends the comment: the token is returned with the
  text accumulated so far, the newline is consumed and not appended. Space (32), tab (9) and
  carriage return (13) are appended and the scan stays in \<^verbatim>\<open>commentState\<close>; so is every other
  rune the classifier knows, and an unknown rune aborts the scan with an error. The call after
  the comment starts in \<^verbatim>\<open>startState\<close>, as every call of \<^verbatim>\<open>scanStream\<close> does. For
  instance \<^verbatim>\<open>Split("# a comment\nword")\<close> is the single word \<^verbatim>\<open>word\<close>.
\<close>

theorem comment_ends_at_newline_only:
  "scan (defaultClassifierOver ordinary) commentState tt v (10 # rest)
     = (Some \<lparr>tokenType = tt, tokenValue = v\<rparr>, None, rest)
   \<and> scan (defaultClassifierOver ordinary) commentState tt v (32 # rest)
     = scan (defaultClassifierOver ordinary) commentState tt (v @ [32]) rest
   \<and> scan (defaultClassifierOver ordinary) commentState tt v (9 # rest)
     = scan (defaultClassifierOver ordinary) commentState tt (v @ [9]) rest
   \<and> scan (defaultClassifierOver ordinary) commentState tt v (13 # rest)
     = scan (defaultClassifierOver ordinary) commentState tt (v @ [13]) rest
   \<and> scan (defaultClassifierOver ordinary) commentState tt v (r # rest)
     = (if r = 10 then (Some \<lparr>tokenType = tt, tokenValue = v\<rparr>, None, rest)
        else if ClassifyRune (defaultClassifierOver ordinary) r = unknownRuneClass
        then (None, Some (UnknownRune r), rest)
        else scan (defaultClassifierOver ordinary) commentState tt (v @ [r]) rest)
   \<and> scanStream NewDefaultClassifier (runes ''# a comment\<newline>word'')
     = (Some \<lparr>tokenType = CommentToken, tokenValue = runes '' a comment''\<rparr>, None, runes ''word'')
   \<and> scanStream c inp = scan c startState UnknownToken [] inp
   \<and> Split (runes ''# a comment\<newline>word'') = ([runes ''word''], None)
   \<and> Split_shlex_go (runes ''# a comment\<newline>word'') = ([runes ''word''], None)"
  by (simp add: default_eval)

text \<open>
  C2 fails in \<^verbatim>\<open>src/shlex.go\<close>: its \<^verbatim>\<open>RUNE_CHAR\<close> has no pipe, so the default classifier
  of that file gives rune 124 the zero class, and \<^verbatim>\<open>Split("a|b")\<close> stops at the pipe with
  the unknown-rune error and no word.
\<close>

theorem pipe_is_unknown_in_shlex_go:
  "ClassifyRune NewDefaultClassifier_shlex_go 124 = unknownRuneClass
   \<and> Split_shlex_go (runes ''a|b'') = ([], Some (UnknownRune 124))"
  by (simp add: default_eval)

text \<open>
  C2, amended. In the default classifier of \<^verbatim>\<open>src/unnamed/part_000\<close> the ordinary runes are
  exactly the ASCII letters and digits and the five runes \<^verbatim>\<open>. _ - , |\<close>; the pipe (rune
  124) is ordinary there and \<^verbatim>\<open>Split("a|b")\<close> is the single word \<^verbatim>\<open>a|b\<close> with a nil
  error. In the default classifier of \<^verbatim>\<open>src/shlex.go\<close> the ordinary runes are the same
  without the pipe, which is unknown, and \<^verbatim>\<open>Split("a|b")\<close> returns no word and the
  unknown-rune error.
\<close>

theorem pipe_is_ordinary_in_part_000:
  "ClassifyRune NewDefaultClassifier 124 = charRuneClass
   \<and> (ClassifyRune NewDefaultClassifier r = charRuneClass \<longleftrightarrow>
        (97 \<le> r \<and> r \<le> 122) \<or> (65 \<le> r \<and> r \<le> 90) \<or> (48 \<le> r \<and> r \<le> 57)
        \<or> r = 46 \<or> r = 95 \<or> r = 45 \<or> r = 44 \<or> r = 124)
   \<and> Split (runes ''a|b'') = ([runes ''a|b''], None)
   \<and> ClassifyRune NewDefaultClassifier_shlex_go 124 = unknownRuneClass
   \<and> (ClassifyRune NewDefaultClassifier_shlex_go r = charRuneClass \<longleftrightarrow>
        (97 \<le> r \<and> r \<le> 122) \<or> (65 \<le> r \<and> r \<le> 90) \<or> (48 \<le> r \<and> r \<le> 57)
        \<or> r = 46 \<or> r = 95 \<or> r = 45 \<or> r = 44)
   \<and> Split_shlex_go (runes ''a|b'') = ([], Some (UnknownRune 124))"
proof -
  have a: "ClassifyRune NewDefaultClassifier 124 = charRuneClass"
    by (simp add: default_eval)
  have b: "ClassifyRune NewDefaultClassifier r = charRuneClass \<longleftrightarrow>
        (97 \<le> r \<and> r \<le> 122) \<or> (65 \<le> r \<and> r \<le> 90) \<or> (48 \<le> r \<and> r \<le> 57)
        \<or> r = 46 \<or> r = 95 \<or> r = 45 \<or> r = 44 \<or> r = 124"
    unfolding NewDefaultClassifier_def ClassifyRune_defaultClassifierOver set_charRunes
    by (auto simp: set_RUNE_CHAR)
  have c: "Split (runes ''a|b'') = ([runes ''a|b''], None)"
    by (simp add: default_eval)
  have d: "ClassifyRune NewDefaultClassifier_shlex_go 124 = unknownRuneClass"
    by (simp add: default_eval)
  have e: "ClassifyRune NewDefaultClassifier_shlex_go r = charRuneClass \<longleftrightarrow>
        (97 \<le> r \<and> r \<le> 122) \<or> (65 \<le> r \<and> r \<le> 90) \<or> (48 \<le> r \<and> r \<le> 57)
        \<or> r = 46 \<or> r = 95 \<or> r = 45 \<or> r = 44"
    unfolding NewDefaultClassifier_shlex_go_def ClassifyRune_defaultClassifierOver
    by (auto simp: set_RUNE_CHAR)
  have f: "Split_shlex_go (runes ''a|b'') = ([], Some (UnknownRune 124))"
    by (simp add: default_eval)
  from a b c d e f show ?thesis by blast
qed

text \<open>
  C1 fails on the tokenizer: when the input ends inside a quote, \<^verbatim>\<open>scanStream\<close> sets
  \<^verbatim>\<open>err\<close> and leaves the loop by \<^verbatim>\<open>break SCAN\<close>, so it returns the error together with a
  token built from the runes accumulated so far. On the input \<^verbatim>\<open>"ab\<close> the token is the word
  \<^verbatim>\<open>ab\<close>.
\<close>

theorem eof_in_quote_returns_token_with_error:
  \<open>scanStream NewDefaultClassifier (runes ''"ab'')
     = (Some \<lparr>tokenType = WordToken, tokenValue = runes ''ab''\<rparr>, Some EOFExpectingQuote, [])\<close>
  by (simp add: default_eval)

text \<open>
  C1, amended. When the end of input is read in \<^verbatim>\<open>escapingState\<close> or
  \<^verbatim>\<open>escapingQuotedState\<close>, or in \<^verbatim>\<open>quotingEscapingState\<close> or \<^verbatim>\<open>quotingState\<close>, the
  tokenizer reports an error, and returns with it a token that holds the runes accumulated so
  far. It is the lexer that drops this token: whenever the tokenizer reports an error,
  \<^verbatim>\<open>Lexer.Next\<close> returns the empty string with that error, and \<^verbatim>\<open>Split\<close> returns the
  words it had collected before, with no word for the unfinished one.
\<close>

theorem eof_in_quote_or_escape:
  "scan c escapingState tt v []
     = (Some \<lparr>tokenType = tt, tokenValue = v\<rparr>, Some EOFAfterEscape, [])
   \<and> scan c escapingQuotedState tt v []
     = (Some \<lparr>tokenType = tt, tokenValue = v\<rparr>, Some EOFAfterEscape, [])
   \<and> scan c quotingEscapingState tt v []
     = (Some \<lparr>tokenType = tt, tokenValue = v\<rparr>, Some EOFExpectingQuote, [])
   \<and> scan c quotingState tt v []
     = (Some \<lparr>tokenType = tt, tokenValue = v\<rparr>, Some EOFExpectingQuote, [])
   \<and> (scanStream c inp = (tok, Some e, rest) \<longrightarrow> Next c inp = ([], Some e, rest))
   \<and> (scanStream c inp = (tok, Some e, rest) \<longrightarrow> e \<noteq> EOF \<longrightarrow>
        Split_loop c inp subStrings = (subStrings, Some e))"
  by (simp add: Next.simps[of c inp] Split_loop.simps[of c inp])

theorem eof_in_quote_or_escape_witness:
  \<open>scanStream NewDefaultClassifier (runes ''"ab'')
     = (Some \<lparr>tokenType = WordToken, tokenValue = runes ''ab''\<rparr>, Some EOFExpectingQuote, [])
   \<and> EOFExpectingQuote \<noteq> EOF
   \<and> Next NewDefaultClassifier (runes ''"ab'') = ([], Some EOFExpectingQuote, [])
   \<and> Split_loop NewDefaultClassifier (runes ''"ab'') [runes ''w''] = ([runes ''w''], Some EOFExpectingQuote)\<close>
proof -
  have h: \<open>scanStream NewDefaultClassifier (runes ''"ab'')
     = (Some \<lparr>tokenType = WordToken, tokenValue = runes ''ab''\<rparr>, Some EOFExpectingQuote, [])\<close>
    by (simp add: default_eval)
  from h eof_in_quote_or_escape[of NewDefaultClassifier WordToken "runes ''ab''" \<open>runes ''"ab''\<close>
      "Some \<lparr>tokenType = WordToken, tokenValue = runes ''ab''\<rparr>" EOFExpectingQuote "[]" "[runes ''w'']"]
  show ?thesis by simp
qed

section \<open>The scanner depends on the classifier through the runes it reads\<close>

lemma scan_rest_suffix: "\<exists>pre. inp = pre @ snd (snd (scan c state tt v inp))"
proof (induction inp arbitrary: state tt v)
  case Nil
  show ?case by (cases state) simp_all
next
  case (Cons r inp)
  have IH: "\<And>s t w. \<exists>pre. r # inp = pre @ snd (snd (scan c s t w inp))"
  proof -
    fix s t w
    from Cons[of s t w] obtain pre where "inp = pre @ snd (snd (scan c s t w inp))" by blast
    then have "r # inp = (r # pre) @ snd (snd (scan c s t w inp))" by simp
    then show "\<exists>pre. r # inp = pre @ snd (snd (scan c s t w inp))" by blast
  qed
  have here: "\<exists>pre. r # inp = pre @ inp" "\<exists>pre. r # inp = pre @ r # inp"
    by (rule exI[of _ "[r]"], simp) (rule exI[of _ "[]"], simp)
  show ?case
  proof (cases state)
    case startState
    then show ?thesis by (cases "ClassifyRune c r") (simp_all add: IH here)
  next
    case inWordState
    then show ?thesis by (cases "ClassifyRune c r") (simp_all add: IH here)
  next
    case escapingState
    then show ?thesis by (cases "ClassifyRune c r") (simp_all add: IH here)
  next
    case escapingQuotedState
    then show ?thesis by (cases "ClassifyRune c r") (simp_all add: IH here)
  next
    case quotingEscapingState
    then show ?thesis by (cases "ClassifyRune c r") (simp_all add: IH here)
  next
    case quotingState
    then show ?thesis by (cases "ClassifyRune c r") (simp_all add: IH here)
  next
    case commentState
    then show ?thesis by (cases "ClassifyRune c r") (simp_all add: IH here)
  qed
qed

lemma scanStream_rest_subset:
  "scanStream c inp = (tok, err, rest) \<Longrightarrow> set rest \<subseteq> set inp"
proof -
  assume a: "scanStream c inp = (tok, err, rest)"
  from scan_rest_suffix[of inp c startState UnknownToken "[]"] a
  obtain pre where "inp = pre @ rest" unfolding scanStream_def by auto
  then show ?thesis by auto
qed

lemma scan_cong_classifier:
  "\<forall>r \<in> set inp. ClassifyRune c1 r = ClassifyRune c2 r \<Longrightarrow>
     scan c1 state tt v inp = scan c2 state tt v inp"
proof (induction inp arbitrary: state tt v)
  case Nil
  show ?case by simp
next
  case (Cons r inp)
  then have eq: "ClassifyRune c1 r = ClassifyRune c2 r"
    and IH: "\<And>s t w. scan c1 s t w inp = scan c2 s t w inp"
    by simp_all
  show ?case
  proof (cases state)
    case startState
    then show ?thesis by (cases "ClassifyRune c2 r") (simp_all add: eq IH)
  next
    case inWordState
    then show ?thesis by (cases "ClassifyRune c2 r") (simp_all add: eq IH)
  next
    case escapingState
    then show ?thesis by (cases "ClassifyRune c2 r") (simp_all add: eq IH)
  next
    case escapingQuotedState
    then show ?thesis by (cases "ClassifyRune c2 r") (simp_all add: eq IH)
  next
    case quotingEscapingState
    then show ?thesis by (cases "ClassifyRune c2 r") (simp_all add: eq IH)
  next
    case quotingState
    then show ?thesis by (cases "ClassifyRune c2 r") (simp_all add: eq IH)
  next
    case commentState
    then show ?thesis by (cases "ClassifyRune c2 r") (simp_all add: eq IH)
  qed
qed

lemma Next_rest_subset: "Next c inp = (word, err, rest) \<Longrightarrow> set rest \<subseteq> set inp"
proof (induction "length inp" arbitrary: inp rule: less_induct)
  case less
  obtain token e rest' where sc: "scanStream c inp = (token, e, rest')"
    by (cases "scanStream c inp") auto
  then have sub: "set rest' \<subseteq> set inp" by (rule scanStream_rest_subset)
  show ?case
  proof (cases "\<exists>tok. token = Some tok \<and> e = None \<and> tokenType tok = CommentToken")
    case True
    then obtain tok where t: "token = Some tok" "e = None" "tokenType tok = CommentToken"
      by blast
    from sc t have sh: "length rest' < length inp"
      by (auto dest: scanStream_shrinks)
    from sc t less.prems have "Next c rest' = (word, err, rest)"
      by (simp add: Next.simps[of c inp])
    from less.hyps[OF sh this] sub show ?thesis by blast
  next
    case False
    with sc less.prems have "rest = rest'"
      by (auto simp add: Next.simps[of c inp] split: option.splits TokenType.splits)
    with sub show ?thesis by simp
  qed
qed

lemma Next_cong_classifier:
  "\<forall>r \<in> set inp. ClassifyRune c1 r = ClassifyRune c2 r \<Longrightarrow> Next c1 inp = Next c2 inp"
proof (induction "length inp" arbitrary: inp rule: less_induct)
  case less
  have sceq: "scanStream c1 inp = scanStream c2 inp"
    unfolding scanStream_def using less.prems by (rule scan_cong_classifier)
  obtain token e rest' where sc: "scanStream c2 inp = (token, e, rest')"
    by (cases "scanStream c2 inp") auto
  show ?case
  proof (cases "\<exists>tok. token = Some tok \<and> e = None \<and> tokenType tok = CommentToken")
    case True
    then obtain tok where t: "token = Some tok" "e = None" "tokenType tok = CommentToken"
      by blast
    from sc t have sh: "length rest' < length inp"
      by (auto dest: scanStream_shrinks)
    from sc have "set rest' \<subseteq> set inp" by (rule scanStream_rest_subset)
    with less.prems have "\<forall>r \<in> set rest'. ClassifyRune c1 r = ClassifyRune c2 r" by blast
    from less.hyps[OF sh this] sc sceq t show ?thesis
      by (simp add: Next.simps[of c1 inp] Next.simps[of c2 inp])
  next
    case False
    with sc sceq show ?thesis
      by (auto simp add: Next.simps[of c1 inp] Next.simps[of c2 inp]
          split: option.splits TokenType.splits)
  qed
qed

lemma Split_loop_cong_classifier:
  "\<forall>r \<in> set inp. ClassifyRune c1 r = ClassifyRune c2 r \<Longrightarrow>
     Split_loop c1 inp subStrings = Split_loop c2 inp subStrings"
proof (induction "length inp" arbitrary: inp subStrings rule: less_induct)
  case less
  have nxeq: "Next c1 inp = Next c2 inp"
    using less.prems by (rule Next_cong_classifier)
  obtain word err rest where nx: "Next c2 inp = (word, err, rest)"
    by (cases "Next c2 inp") auto
  show ?case
  proof (cases err)
    case (Some e)
    with nx nxeq show ?thesis
      by (simp add: Split_loop.simps[of c1 inp] Split_loop.simps[of c2 inp])
  next
    case None
    with nx have sh: "length rest < length inp" by (auto dest: Next_shrinks)
    from nx have "set rest \<subseteq> set inp" by (rule Next_rest_subset)
    with less.prems have "\<forall>r \<in> set rest. ClassifyRune c1 r = ClassifyRune c2 r" by blast
    from less.hyps[OF sh this] nx nxeq None show ?thesis
      by (simp add: Split_loop.simps[of c1 inp] Split_loop.simps[of c2 inp])
  qed
qed

text \<open>
  C3 fails: the two snapshots disagree on an input with a pipe. \<^verbatim>\<open>Split\<close> of
  \<^verbatim>\<open>part_000\<close> returns the word \<^verbatim>\<open>a|b\<close> and a nil error, \<^verbatim>\<open>Split\<close> of \<^verbatim>\<open>shlex.go\<close> returns
  no word and an error.
\<close>

theorem Split_snapshots_differ_on_pipe:
  "Split (runes ''a|b'') \<noteq> Split_shlex_go (runes ''a|b'')"
  by (simp add: default_eval)

text \<open>
  C3, amended. For every input that has no pipe (rune 124), \<^verbatim>\<open>Split\<close> of \<^verbatim>\<open>shlex.go\<close> and
  \<^verbatim>\<open>Split\<close> of \<^verbatim>\<open>part_000\<close> return the same words and the same error.
\<close>

theorem Split_snapshots_agree_without_pipe:
  "124 \<notin> set s \<Longrightarrow> Split s = Split_shlex_go s"
proof -
  assume np: "124 \<notin> set s"
  have "\<forall>r \<in> set s. ClassifyRune NewDefaultClassifier r = ClassifyRune NewDefaultClassifier_shlex_go r"
  proof
    fix r assume "r \<in> set s"
    with np have "r \<noteq> 124" by auto
    then show "ClassifyRune NewDefaultClassifier r = ClassifyRune NewDefaultClassifier_shlex_go r"
      by (simp add: NewDefaultClassifier_def NewDefaultClassifier_shlex_go_def
          ClassifyRune_defaultClassifierOver set_charRunes)
  qed
  then show ?thesis
    unfolding Split_def Split_shlex_go_def by (rule Split_loop_cong_classifier)
qed

theorem Split_snapshots_agree_without_pipe_witness:
  \<open>124 \<notin> set (runes ''one "two three" four'')
   \<and> Split (runes ''one "two three" four'') = Split_shlex_go (runes ''one "two three" four'')
   \<and> Split_shlex_go (runes ''one "two three" four'')
       = ([runes ''one'', runes ''two three'', runes ''four''], None)\<close>
proof -
  have h: \<open>124 \<notin> set (runes ''one "two three" four'')\<close> by (simp add: runes_def)
  have v: \<open>Split_shlex_go (runes ''one "two three" four'')
       = ([runes ''one'', runes ''two three'', runes ''four''], None)\<close>
    by (simp add: default_eval)
  from h v Split_snapshots_agree_without_pipe[OF h] show ?thesis by simp
qed

section \<open>Errors of the scan and what Split returns with them\<close>

lemma scan_error_kinds:
  "scan c state tt v inp = (tok, Some e, rest) \<Longrightarrow>
     e = EOF \<or> e = EOFAfterEscape \<or> e = EOFExpectingQuote \<or> (\<exists>r. e = UnknownRune r)"
proof (induction inp arbitrary: state tt v)
  case Nil
  then show ?case by (cases state) auto
next
  case (Cons r inp)
  show ?case
  proof (cases state)
    case startState
    with Cons.prems show ?thesis
      by (cases "ClassifyRune c r") (auto dest: Cons.IH)
  next
    case inWordState
    with Cons.prems show ?thesis
      by (cases "ClassifyRune c r") (auto dest: Cons.IH)
  next
    case escapingState
    with Cons.prems show ?thesis
      by (cases "ClassifyRune c r") (auto dest: Cons.IH)
  next
    case escapingQuotedState
    with Cons.prems show ?thesis
      by (cases "ClassifyRune c r") (auto dest: Cons.IH)
  next
    case quotingEscapingState
    with Cons.prems show ?thesis
      by (cases "ClassifyRune c r") (auto dest: Cons.IH)
  next
    case quotingState
    with Cons.prems show ?thesis
      by (cases "ClassifyRune c r") (auto dest: Cons.IH)
  next
    case commentState
    with Cons.prems show ?thesis
      by (cases "ClassifyRune c r") (auto dest: Cons.IH split: if_splits)
  qed
qed

text \<open>
  A token that leaves the loop has the type set on leaving \<^verbatim>\<open>startState\<close>, a word or a
  comment, and a nil token always comes with an error: the two defensive branches of
  \<^verbatim>\<open>Lexer.Next\<close> are never taken.
\<close>

lemma scan_token_type:
  "scan c state tt v inp = (Some tok, err, rest) \<Longrightarrow>
     (if state = startState then tokenType tok = WordToken \<or> tokenType tok = CommentToken
      else tokenType tok = tt)"
proof (induction inp arbitrary: state tt v)
  case Nil
  then show ?case by (cases state) auto
next
  case (Cons r inp)
  have IH: "\<And>s t w. scan c s t w inp = (Some tok, err, rest) \<Longrightarrow> s \<noteq> startState \<Longrightarrow> tokenType tok = t"
    using Cons.IH by force
  have IH0: "\<And>t w. scan c startState t w inp = (Some tok, err, rest) \<Longrightarrow>
      tokenType tok = WordToken \<or> tokenType tok = CommentToken"
    using Cons.IH by force
  show ?case
  proof (cases state)
    case startState
    with Cons.prems show ?thesis
      by (cases "ClassifyRune c r") (auto dest: IH IH0)
  next
    case inWordState
    with Cons.prems show ?thesis
      by (cases "ClassifyRune c r") (auto dest: IH)
  next
    case escapingState
    with Cons.prems show ?thesis
      by (cases "ClassifyRune c r") (auto dest: IH)
  next
    case escapingQuotedState
    with Cons.prems show ?thesis
      by (cases "ClassifyRune c r") (auto dest: IH)
  next
    case quotingEscapingState
    with Cons.prems show ?thesis
      by (cases "ClassifyRune c r") (auto dest: IH)
  next
    case quotingState
    with Cons.prems show ?thesis
      by (cases "ClassifyRune c r") (auto dest: IH)
  next
    case commentState
    with Cons.prems show ?thesis
      by (cases "ClassifyRune c r") (auto dest: IH split: if_splits)
  qed
qed

lemma scan_nil_token_has_error: "scan c state tt v inp \<noteq> (None, None, rest)"
proof (induction inp arbitrary: state tt v)
  case Nil
  show ?case by (cases state) auto
next
  case (Cons r inp)
  show ?case
  proof (cases state)
    case startState
    then show ?thesis by (cases "ClassifyRune c r") (simp_all add: Cons.IH)
  next
    case inWordState
    then show ?thesis by (cases "ClassifyRune c r") (simp_all add: Cons.IH)
  next
    case escapingState
    then show ?thesis by (cases "ClassifyRune c r") (simp_all add: Cons.IH)
  next
    case escapingQuotedState
    then show ?thesis by (cases "ClassifyRune c r") (simp_all add: Cons.IH)
  next
    case quotingEscapingState
    then show ?thesis by (cases "ClassifyRune c r") (simp_all add: Cons.IH)
  next
    case quotingState
    then show ?thesis by (cases "ClassifyRune c r") (simp_all add: Cons.IH)
  next
    case commentState
    then show ?thesis by (cases "ClassifyRune c r") (simp_all add: Cons.IH)
  qed
qed

lemma Next_error_kinds:
  "Next c inp = (word, Some e, rest) \<Longrightarrow>
     e = EOF \<or> e = EOFAfterEscape \<or> e = EOFExpectingQuote \<or> (\<exists>r. e = UnknownRune r)"
proof (induction "length inp" arbitrary: inp rule: less_induct)
  case less
  obtain token err rest' where sc: "scanStream c inp = (token, err, rest')"
    by (cases "scanStream c inp") auto
  show ?case
  proof (cases err)
    case (Some e')
    with sc less.prems have "e = e'" by (simp add: Next.simps[of c inp])
    with sc Some show ?thesis
      unfolding scanStream_def by (auto dest: scan_error_kinds)
  next
    case None
    with sc scan_nil_token_has_error[of c startState UnknownToken "[]" inp rest']
    obtain tok where tk: "token = Some tok"
      unfolding scanStream_def by (cases token) auto
    with sc None scan_token_type[of c startState UnknownToken "[]" inp tok None rest']
    have ty: "tokenType tok = WordToken \<or> tokenType tok = CommentToken"
      unfolding scanStream_def by simp
    from sc None tk have sh: "length rest' < length inp"
      by (auto dest: scanStream_shrinks)
    from ty show ?thesis
    proof
      assume "tokenType tok = WordToken"
      with sc None tk less.prems show ?thesis by (simp add: Next.simps[of c inp])
    next
      assume "tokenType tok = CommentToken"
      with sc None tk less.prems have "Next c rest' = (word, Some e, rest)"
        by (simp add: Next.simps[of c inp])
      from less.hyps[OF sh this] show ?thesis .
    qed
  qed
qed

lemma Split_loop_of_Next_yields:
  "Next_yields c inp ws rest \<Longrightarrow> Next c rest = (word, Some e, rest') \<Longrightarrow>
     Split_loop c inp subStrings
       = (subStrings @ ws, if e = EOF then None else Some e)"
proof (induction ws arbitrary: inp subStrings)
  case Nil
  then show ?case by (simp add: Split_loop.simps[of c inp])
next
  case (Cons w ws)
  from Cons.prems(1) obtain mid where nx: "Next c inp = (w, None, mid)"
    and ys: "Next_yields c mid ws rest"
    by (auto split: prod.splits)
  from Cons.IH[OF ys Cons.prems(2), of "subStrings @ [w]"] nx show ?case
    by (simp add: Split_loop.simps[of c inp])
qed

lemma Split_loop_run:
  "\<exists>ws rest word e rest'. Next_yields c inp ws rest \<and> Next c rest = (word, Some e, rest')"
proof (induction "length inp" arbitrary: inp rule: less_induct)
  case less
  obtain word err mid where nx: "Next c inp = (word, err, mid)"
    by (cases "Next c inp") auto
  show ?case
  proof (cases err)
    case (Some e)
    with nx have "Next_yields c inp [] inp \<and> Next c inp = (word, Some e, mid)" by simp
    then show ?thesis by blast
  next
    case None
    with nx have "length mid < length inp" by (auto dest: Next_shrinks)
    from less.hyps[OF this] obtain ws rest word' e rest'
      where "Next_yields c mid ws rest" "Next c rest = (word', Some e, rest')" by blast
    with nx None have "Next_yields c inp (word # ws) rest \<and> Next c rest = (word', Some e, rest')"
      by simp
    then show ?thesis by blast
  qed
qed

text \<open>
  C4. \<^verbatim>\<open>Next_yields c inp ws rest\<close> says that successive calls of \<^verbatim>\<open>Lexer.Next\<close> on the
  input \<^verbatim>\<open>inp\<close> return the words \<^verbatim>\<open>ws\<close>, each with a nil error, and leave \<^verbatim>\<open>rest\<close> in the
  reader. If the lexer yields the words \<^verbatim>\<open>ws\<close> and its next call fails with an error other
  than \<^verbatim>\<open>io.EOF\<close>, then \<^verbatim>\<open>Split\<close> returns exactly \<^verbatim>\<open>ws\<close>, in order, with that error.
  Conversely, whenever \<^verbatim>\<open>Split\<close> returns an error, the words it returns are those the lexer
  yielded before the failing call, and the error is an unterminated escape, an unterminated
  quote or an unknown rune. In particular \<^verbatim>\<open>Split("trailing\\")\<close> returns that error and no
  word.
\<close>

theorem Split_returns_words_before_error:
  "(Next_yields c inp ws rest \<longrightarrow> fst (snd (Next c rest)) = Some e \<longrightarrow> e \<noteq> EOF \<longrightarrow>
      Split_loop c inp [] = (ws, Some e))
   \<and> (Split_loop c inp [] = (ws, Some e) \<longrightarrow>
        (\<exists>rest. Next_yields c inp ws rest \<and> fst (snd (Next c rest)) = Some e)
        \<and> (e = EOFAfterEscape \<or> e = EOFExpectingQuote \<or> (\<exists>r. e = UnknownRune r)))
   \<and> Split (runes ''trailing'' @ [92]) = ([], Some EOFAfterEscape)
   \<and> Split_shlex_go (runes ''trailing'' @ [92]) = ([], Some EOFAfterEscape)"
proof -
  have A: "Split_loop c inp [] = (ws, Some e)"
    if "Next_yields c inp ws rest" "fst (snd (Next c rest)) = Some e" "e \<noteq> EOF"
  proof -
    from that(2) obtain word rest' where "Next c rest = (word, Some e, rest')"
      by (cases "Next c rest") auto
    from Split_loop_of_Next_yields[OF that(1) this, of "[]"] that(3) show ?thesis by simp
  qed
  have B: "(\<exists>rest. Next_yields c inp ws rest \<and> fst (snd (Next c rest)) = Some e)
        \<and> (e = EOFAfterEscape \<or> e = EOFExpectingQuote \<or> (\<exists>r. e = UnknownRune r))"
    if sp: "Split_loop c inp [] = (ws, Some e)"
  proof -
    from Split_loop_run[of c inp] obtain ws' rest word e' rest'
      where ys: "Next_yields c inp ws' rest" and nx: "Next c rest = (word, Some e', rest')"
      by blast
    from Split_loop_of_Next_yields[OF ys nx, of "[]"] sp
    have eq: "ws = ws'" "e' = e" "e \<noteq> EOF"
      by (auto split: if_splits)
    from nx eq Next_error_kinds[of c rest word e rest']
    have "e = EOFAfterEscape \<or> e = EOFExpectingQuote \<or> (\<exists>r. e = UnknownRune r)" by auto
    moreover from ys nx eq
    have "\<exists>rest. Next_yields c inp ws rest \<and> fst (snd (Next c rest)) = Some e"
      by (intro exI[of _ rest]) simp
    ultimately show ?thesis by blast
  qed
  have C: "Split (runes ''trailing'' @ [92]) = ([], Some EOFAfterEscape)"
    by (simp add: default_eval)
  have D: "Split_shlex_go (runes ''trailing'' @ [92]) = ([], Some EOFAfterEscape)"
    by (simp add: default_eval)
  from A B C D show ?thesis by blast
qed

theorem Split_returns_words_before_error_witness:
  "Next_yields NewDefaultClassifier (runes ''a b'' @ [92]) [runes ''a''] (runes '' b'' @ [92])
   \<and> fst (snd (Next NewDefaultClassifier (runes '' b'' @ [92]))) = Some EOFAfterEscape
   \<and> EOFAfterEscape \<noteq> EOF
   \<and> Split_loop NewDefaultClassifier (runes ''a b'' @ [92]) [] = ([runes ''a''], Some EOFAfterEscape)
   \<and> (\<exists>rest. Next_yields NewDefaultClassifier (runes ''a b'' @ [92]) [runes ''a''] rest
         \<and> fst (snd (Next NewDefaultClassifier rest)) = Some EOFAfterEscape)"
proof -
  have h1: "Next_yields NewDefaultClassifier (runes ''a b'' @ [92]) [runes ''a''] (runes '' b'' @ [92])"
    by (simp add: default_eval)
  have h2: "fst (snd (Next NewDefaultClassifier (runes '' b'' @ [92]))) = Some EOFAfterEscape"
    by (simp add: default_eval)
  have h3: "EOFAfterEscape \<noteq> EOF" by simp
  from h1 h2 h3 Split_returns_words_before_error[of NewDefaultClassifier "runes ''a b'' @ [92]"
      "[runes ''a'']" "runes '' b'' @ [92]" EOFAfterEscape]
  show ?thesis by blast
qed

section \<open>Quoted spans\<close>

lemma scan_inWord_literal:
  "ClassifyRune c r = charRuneClass \<or> ClassifyRune c r = commentRuneClass \<Longrightarrow>
     scan c inWordState tt v (r # rest) = scan c inWordState tt (v @ [r]) rest"
  by auto

lemma scan_unquoted_run:
  "unquoted_run c w \<Longrightarrow> scan c inWordState tt v (w @ rest) = scan c inWordState tt (v @ w) rest"
proof (induction w arbitrary: v)
  case Nil
  show ?case by simp
next
  case (Cons r w)
  then have cl: "ClassifyRune c r = charRuneClass \<or> ClassifyRune c r = commentRuneClass"
    and run: "unquoted_run c w"
    by (simp_all add: unquoted_run_def)
  have "scan c inWordState tt v ((r # w) @ rest) = scan c inWordState tt (v @ [r]) (w @ rest)"
    using scan_inWord_literal[OF cl] by simp
  also have "\<dots> = scan c inWordState tt ((v @ [r]) @ w) rest"
    by (rule Cons.IH[OF run])
  finally show ?case by simp
qed

lemma scan_dq_open:
  "scan (defaultClassifierOver ordinary) startState tt v (34 # rest)
     = scan (defaultClassifierOver ordinary) quotingEscapingState WordToken v rest"
  "scan (defaultClassifierOver ordinary) inWordState tt v (34 # rest)
     = scan (defaultClassifierOver ordinary) quotingEscapingState tt v rest"
  by (simp_all add: ClassifyRune_defaultClassifierOver)

lemma scan_dq_close:
  "scan (defaultClassifierOver ordinary) quotingEscapingState tt v (34 # rest)
     = scan (defaultClassifierOver ordinary) inWordState tt v rest"
  by (simp add: ClassifyRune_defaultClassifierOver)

lemma scan_dq_literal:
  "r \<noteq> 92 \<Longrightarrow> r \<noteq> 34 \<Longrightarrow> ClassifyRune (defaultClassifierOver ordinary) r \<noteq> unknownRuneClass \<Longrightarrow>
     scan (defaultClassifierOver ordinary) quotingEscapingState tt v (r # rest)
       = scan (defaultClassifierOver ordinary) quotingEscapingState tt (v @ [r]) rest"
  by (auto simp add: ClassifyRune_defaultClassifierOver split: if_splits)

lemma scan_dq_escape:
  "ClassifyRune (defaultClassifierOver ordinary) r' \<noteq> unknownRuneClass \<Longrightarrow>
     scan (defaultClassifierOver ordinary) quotingEscapingState tt v (92 # r' # rest)
       = scan (defaultClassifierOver ordinary) quotingEscapingState tt (v @ [r']) rest"
  by (auto simp add: ClassifyRune_defaultClassifierOver split: if_splits)

lemma scan_dq_span:
  "dq_span (defaultClassifierOver ordinary) body \<Longrightarrow>
     scan (defaultClassifierOver ordinary) quotingEscapingState tt v (body @ 34 # rest)
       = scan (defaultClassifierOver ordinary) inWordState tt (v @ dq_resolved body) rest"
proof (induction body arbitrary: v rule: dq_resolved.induct)
  case 1
  show ?case using scan_dq_close by simp
next
  case (2 r)
  then have "scan (defaultClassifierOver ordinary) quotingEscapingState tt v ([r] @ 34 # rest)
       = scan (defaultClassifierOver ordinary) quotingEscapingState tt (v @ [r]) (34 # rest)"
    using scan_dq_literal[of r ordinary tt v "34 # rest"] by simp
  then show ?case using scan_dq_close[of ordinary tt "v @ [r]" rest] by simp
next
  case (3 r r' rs)
  show ?case
  proof (cases "r = 92")
    case True
    with "3.prems" have k: "ClassifyRune (defaultClassifierOver ordinary) r' \<noteq> unknownRuneClass"
      and sp: "dq_span (defaultClassifierOver ordinary) rs"
      by simp_all
    have "scan (defaultClassifierOver ordinary) quotingEscapingState tt v ((r # r' # rs) @ 34 # rest)
        = scan (defaultClassifierOver ordinary) quotingEscapingState tt (v @ [r']) (rs @ 34 # rest)"
      using scan_dq_escape[OF k, of tt v "rs @ 34 # rest"] True by simp
    also have "\<dots> = scan (defaultClassifierOver ordinary) inWordState tt ((v @ [r']) @ dq_resolved rs) rest"
      by (rule "3.IH"(1)[OF True sp])
    finally show ?thesis using True by simp
  next
    case False
    with "3.prems" have k: "r \<noteq> 34" "ClassifyRune (defaultClassifierOver ordinary) r \<noteq> unknownRuneClass"
      and sp: "dq_span (defaultClassifierOver ordinary) (r' # rs)"
      by simp_all
    have "scan (defaultClassifierOver ordinary) quotingEscapingState tt v ((r # r' # rs) @ 34 # rest)
        = scan (defaultClassifierOver ordinary) quotingEscapingState tt (v @ [r]) ((r' # rs) @ 34 # rest)"
      using scan_dq_literal[OF False k, of tt v "(r' # rs) @ 34 # rest"] by simp
    also have "\<dots> = scan (defaultClassifierOver ordinary) inWordState tt ((v @ [r]) @ dq_resolved (r' # rs)) rest"
      by (rule "3.IH"(2)[OF False sp])
    finally show ?thesis using False by simp
  qed
qed





lemma Split_loop_single_word:
  "scanStream c inp = (Some \<lparr>tokenType = WordToken, tokenValue = w\<rparr>, None, []) \<Longrightarrow>
     Split_loop c inp subStrings = (subStrings @ [w], None)"
proof -
  assume sc: "scanStream c inp = (Some \<lparr>tokenType = WordToken, tokenValue = w\<rparr>, None, [])"
  then have nx: "Next c inp = (w, None, [])"
    by (simp add: Next.simps[of c inp])
  have "Next c [] = ([], Some EOF, [])"
    by (simp add: Next.simps[of c "[]"] scanStream_def)
  then have "Split_loop c [] (subStrings @ [w]) = (subStrings @ [w], None)"
    by (simp add: Split_loop.simps[of c "[]"])
  with nx show ?thesis
    by (simp add: Split_loop.simps[of c inp])
qed

text \<open>
  C6. Under the default classifier over any string of ordinary runes, a double-quoted span
  whose inside is \<^verbatim>\<open>body\<close> adds to the word exactly \<^verbatim>\<open>dq_resolved body\<close>, the inside with
  its escapes resolved: neither quote is appended, at the start of a word or inside one, and
  the scan goes on in \<^verbatim>\<open>inWordState\<close>. A span that is the whole input gives the single word
  \<^verbatim>\<open>dq_resolved body\<close>. In particular \<^verbatim>\<open>Split("one \"two three\" four")\<close> is
  \<^verbatim>\<open>one\<close>, \<^verbatim>\<open>two three\<close>, \<^verbatim>\<open>four\<close>.
\<close>

theorem double_quoted_span_text:
  \<open>(dq_span (defaultClassifierOver ordinary) body \<longrightarrow>
      scan (defaultClassifierOver ordinary) startState tt v (34 # body @ 34 # rest)
        = scan (defaultClassifierOver ordinary) inWordState WordToken (v @ dq_resolved body) rest
      \<and> scan (defaultClassifierOver ordinary) inWordState tt v (34 # body @ 34 # rest)
        = scan (defaultClassifierOver ordinary) inWordState tt (v @ dq_resolved body) rest
      \<and> Split_loop (defaultClassifierOver ordinary) (34 # body @ [34]) subStrings
        = (subStrings @ [dq_resolved body], None))
   \<and> Split (runes ''one "two three" four'')
        = ([runes ''one'', runes ''two three'', runes ''four''], None)
   \<and> Split_shlex_go (runes ''one "two three" four'')
        = ([runes ''one'', runes ''two three'', runes ''four''], None)\<close>
proof -
  have A: "scan (defaultClassifierOver ordinary) startState tt v (34 # body @ 34 # rest)
        = scan (defaultClassifierOver ordinary) inWordState WordToken (v @ dq_resolved body) rest"
    if "dq_span (defaultClassifierOver ordinary) body" for tt v rest
    using scan_dq_span[OF that] scan_dq_open(1) by simp
  have B: "scan (defaultClassifierOver ordinary) inWordState tt v (34 # body @ 34 # rest)
        = scan (defaultClassifierOver ordinary) inWordState tt (v @ dq_resolved body) rest"
    if "dq_span (defaultClassifierOver ordinary) body"
    using scan_dq_span[OF that] scan_dq_open(2) by simp
  have C: "Split_loop (defaultClassifierOver ordinary) (34 # body @ [34]) subStrings
        = (subStrings @ [dq_resolved body], None)"
    if sp: "dq_span (defaultClassifierOver ordinary) body"
  proof (rule Split_loop_single_word)
    show "scanStream (defaultClassifierOver ordinary) (34 # body @ [34])
        = (Some \<lparr>tokenType = WordToken, tokenValue = dq_resolved body\<rparr>, None, [])"
      unfolding scanStream_def using A[OF sp, of UnknownToken "[]" "[]"] by simp
  qed
  have D: \<open>Split (runes ''one "two three" four'')
        = ([runes ''one'', runes ''two three'', runes ''four''], None)\<close>
    by (simp add: default_eval)
  have E: \<open>Split_shlex_go (runes ''one "two three" four'')
        = ([runes ''one'', runes ''two three'', runes ''four''], None)\<close>
    by (simp add: default_eval)
  from A B C D E show ?thesis by blast
qed

theorem double_quoted_span_text_witness:
  "dq_span NewDefaultClassifier [97, 92, 34, 98, 32, 99]
   \<and> dq_resolved [97, 92, 34, 98, 32, 99] = [97, 34, 98, 32, 99]
   \<and> scan NewDefaultClassifier inWordState WordToken [120] (34 # [97, 92, 34, 98, 32, 99] @ 34 # [121])
        = scan NewDefaultClassifier inWordState WordToken ([120] @ [97, 34, 98, 32, 99]) [121]
   \<and> Split [34, 97, 92, 34, 98, 32, 99, 34] = ([[97, 34, 98, 32, 99]], None)"
proof -
  have h: "dq_span (defaultClassifierOver charRunes) [97, 92, 34, 98, 32, 99]"
    by (simp add: ClassifyRune_defaultClassifierOver charRunes_def runes_def)
  from h double_quoted_span_text[of charRunes "[97, 92, 34, 98, 32, 99]" WordToken "[120]" "[121]" "[]"]
  show ?thesis
    by (simp add: Split_def NewDefaultClassifier_def)
qed



section \<open>Round trip through Split\<close>

lemma needs_no_quoting_Cons:
  "needs_no_quoting c (r # inp) \<longleftrightarrow>
     (ClassifyRune c r = charRuneClass \<or> ClassifyRune c r = spaceRuneClass
        \<or> ClassifyRune c r = commentRuneClass) \<and> needs_no_quoting c inp"
  by (simp add: needs_no_quoting_def)

lemma needs_no_quoting_suffix: "needs_no_quoting c (pre @ rest) \<Longrightarrow> needs_no_quoting c rest"
  by (simp add: needs_no_quoting_def)

lemma scan_inWord_no_quoting:
  "needs_no_quoting c inp \<Longrightarrow>
     \<exists>w rest. unquoted_run c w
       \<and> scan c inWordState tt v inp = (Some \<lparr>tokenType = tt, tokenValue = v @ w\<rparr>, None, rest)"
proof (induction inp arbitrary: v)
  case Nil
  have "unquoted_run c [] \<and>
      scan c inWordState tt v [] = (Some \<lparr>tokenType = tt, tokenValue = v @ []\<rparr>, None, [])"
    by (simp add: unquoted_run_def)
  then show ?case by blast
next
  case (Cons r inp)
  then have nq: "needs_no_quoting c inp" by (simp add: needs_no_quoting_Cons)
  from Cons.prems consider (sp) "ClassifyRune c r = spaceRuneClass"
    | (lit) "ClassifyRune c r = charRuneClass \<or> ClassifyRune c r = commentRuneClass"
    by (auto simp: needs_no_quoting_Cons)
  then show ?case
  proof cases
    case sp
    then have "unquoted_run c [] \<and> scan c inWordState tt v (r # inp)
        = (Some \<lparr>tokenType = tt, tokenValue = v @ []\<rparr>, None, r # inp)"
      by (simp add: unquoted_run_def)
    then show ?thesis by blast
  next
    case lit
    from Cons.IH[OF nq, of "v @ [r]"] obtain w rest where w: "unquoted_run c w"
      and sc: "scan c inWordState tt (v @ [r]) inp
          = (Some \<lparr>tokenType = tt, tokenValue = (v @ [r]) @ w\<rparr>, None, rest)"
      by blast
    from lit w have "unquoted_run c (r # w)" by (simp add: unquoted_run_def)
    moreover from lit sc have "scan c inWordState tt v (r # inp)
        = (Some \<lparr>tokenType = tt, tokenValue = v @ (r # w)\<rparr>, None, rest)"
      using scan_inWord_literal[OF lit, of tt v inp] by simp
    ultimately show ?thesis by blast
  qed
qed

lemma scan_comment_no_quoting:
  "needs_no_quoting c inp \<Longrightarrow>
     \<exists>w rest. scan c commentState tt v inp = (Some \<lparr>tokenType = tt, tokenValue = w\<rparr>, None, rest)"
proof (induction inp arbitrary: v)
  case Nil
  show ?case by simp
next
  case (Cons r inp)
  then have nq: "needs_no_quoting c inp" by (simp add: needs_no_quoting_Cons)
  from Cons.prems consider "ClassifyRune c r = spaceRuneClass" | "ClassifyRune c r = charRuneClass"
    | "ClassifyRune c r = commentRuneClass"
    by (auto simp: needs_no_quoting_Cons)
  then show ?case
    using Cons.IH[OF nq, of "v @ [r]"] by cases auto
qed

text \<open>
  On such an input a call of \<^verbatim>\<open>scanStream\<close> ends in one of three ways: the input is
  exhausted, a plain word is returned, or a comment is returned.
\<close>

lemma scan_start_no_quoting:
  "needs_no_quoting c inp \<Longrightarrow>
     (\<exists>rest. scan c startState tt [] inp = (None, Some EOF, rest))
     \<or> (\<exists>w rest. plain_word c w
          \<and> scan c startState tt [] inp = (Some \<lparr>tokenType = WordToken, tokenValue = w\<rparr>, None, rest))
     \<or> (\<exists>w rest. scan c startState tt [] inp
          = (Some \<lparr>tokenType = CommentToken, tokenValue = w\<rparr>, None, rest))"
proof (induction inp)
  case Nil
  show ?case by simp
next
  case (Cons r inp)
  then have nq: "needs_no_quoting c inp" by (simp add: needs_no_quoting_Cons)
  from Cons.prems consider (sp) "ClassifyRune c r = spaceRuneClass"
    | (ch) "ClassifyRune c r = charRuneClass" | (co) "ClassifyRune c r = commentRuneClass"
    by (auto simp: needs_no_quoting_Cons)
  then show ?case
  proof cases
    case sp
    with Cons.IH[OF nq] show ?thesis by simp
  next
    case ch
    from scan_inWord_no_quoting[OF nq, of WordToken "[r]"] obtain w rest
      where w: "unquoted_run c w"
        and sc: "scan c inWordState WordToken [r] inp
            = (Some \<lparr>tokenType = WordToken, tokenValue = [r] @ w\<rparr>, None, rest)"
      by blast
    from ch w have "plain_word c (r # w)" by (simp add: plain_word_def)
    moreover from ch sc have "scan c startState tt [] (r # inp)
        = (Some \<lparr>tokenType = WordToken, tokenValue = r # w\<rparr>, None, rest)"
      by simp
    ultimately show ?thesis by blast
  next
    case co
    from scan_comment_no_quoting[OF nq, of CommentToken "[]"] co show ?thesis
      by simp
  qed
qed

lemma Next_no_quoting:
  "needs_no_quoting c inp \<Longrightarrow>
     (\<exists>rest. Next c inp = ([], Some EOF, rest))
     \<or> (\<exists>w rest. plain_word c w \<and> needs_no_quoting c rest \<and> Next c inp = (w, None, rest))"
proof (induction "length inp" arbitrary: inp rule: less_induct)
  case less
  from scan_start_no_quoting[OF less.prems, of UnknownToken]
  consider (eof) rest where "scanStream c inp = (None, Some EOF, rest)"
    | (word) w rest where "plain_word c w"
        "scanStream c inp = (Some \<lparr>tokenType = WordToken, tokenValue = w\<rparr>, None, rest)"
    | (comment) w rest where
        "scanStream c inp = (Some \<lparr>tokenType = CommentToken, tokenValue = w\<rparr>, None, rest)"
    unfolding scanStream_def by blast
  then show ?case
  proof cases
    case eof
    then show ?thesis by (simp add: Next.simps[of c inp])
  next
    case word
    from word(2) scan_rest_suffix[of inp c startState UnknownToken "[]"]
    obtain pre where "inp = pre @ rest" unfolding scanStream_def by auto
    with less.prems have "needs_no_quoting c rest" by (auto dest: needs_no_quoting_suffix)
    with word show ?thesis by (simp add: Next.simps[of c inp])
  next
    case comment
    from comment scan_rest_suffix[of inp c startState UnknownToken "[]"]
    obtain pre where "inp = pre @ rest" unfolding scanStream_def by auto
    with less.prems have nq: "needs_no_quoting c rest" by (auto dest: needs_no_quoting_suffix)
    from comment have sh: "length rest < length inp" by (rule scanStream_shrinks)
    from comment have "Next c inp = Next c rest" by (simp add: Next.simps[of c inp])
    with less.hyps[OF sh nq] nq show ?thesis by simp
  qed
qed

lemma Split_loop_no_quoting:
  "needs_no_quoting c inp \<Longrightarrow>
     \<exists>ws. (\<forall>w \<in> set ws. plain_word c w) \<and> Split_loop c inp subStrings = (subStrings @ ws, None)"
proof (induction "length inp" arbitrary: inp subStrings rule: less_induct)
  case less
  from Next_no_quoting[OF less.prems]
  consider (eof) rest where "Next c inp = ([], Some EOF, rest)"
    | (word) w rest where "plain_word c w" "needs_no_quoting c rest" "Next c inp = (w, None, rest)"
    by blast
  then show ?case
  proof cases
    case eof
    then have "(\<forall>w \<in> set []. plain_word c w) \<and> Split_loop c inp subStrings = (subStrings @ [], None)"
      by (simp add: Split_loop.simps[of c inp])
    then show ?thesis by blast
  next
    case word
    from word(3) have sh: "length rest < length inp" by (rule Next_shrinks)
    from less.hyps[OF sh word(2), of "subStrings @ [w]"] obtain ws
      where ws: "\<forall>w \<in> set ws. plain_word c w"
        and sp: "Split_loop c rest (subStrings @ [w]) = ((subStrings @ [w]) @ ws, None)"
      by blast
    from word(1) ws have "\<forall>x \<in> set (w # ws). plain_word c x" by simp
    moreover from word(3) sp have "Split_loop c inp subStrings = (subStrings @ (w # ws), None)"
      by (simp add: Split_loop.simps[of c inp])
    ultimately show ?thesis by blast
  qed
qed

text \<open>Splitting the re-joined plain words gives them back.\<close>

lemma Next_plain_word:
  "plain_word c w \<Longrightarrow> rest = [] \<or> (\<exists>sp rest'. rest = sp # rest' \<and> ClassifyRune c sp = spaceRuneClass) \<Longrightarrow>
     Next c (w @ rest) = (w, None, rest)"
proof -
  assume pw: "plain_word c w"
    and rs: "rest = [] \<or> (\<exists>sp rest'. rest = sp # rest' \<and> ClassifyRune c sp = spaceRuneClass)"
  from pw obtain r w' where w: "w = r # w'" and ch: "ClassifyRune c r = charRuneClass"
    and run: "unquoted_run c w'"
    by (auto simp: plain_word_def split: list.splits)
  from rs have fin: "scan c inWordState WordToken w rest
      = (Some \<lparr>tokenType = WordToken, tokenValue = w\<rparr>, None, rest)"
    by auto
  have "scanStream c (w @ rest) = scan c inWordState WordToken [r] (w' @ rest)"
    unfolding scanStream_def using w ch by simp
  also have "\<dots> = scan c inWordState WordToken ([r] @ w') rest"
    by (rule scan_unquoted_run[OF run])
  finally have "scanStream c (w @ rest) = (Some \<lparr>tokenType = WordToken, tokenValue = w\<rparr>, None, rest)"
    using fin w by simp
  then show ?thesis by (simp add: Next.simps[of c "w @ rest"])
qed

lemma Split_loop_skip_space:
  "ClassifyRune c sp = spaceRuneClass \<Longrightarrow>
     Split_loop c (sp # inp) subStrings = Split_loop c inp subStrings"
proof -
  assume "ClassifyRune c sp = spaceRuneClass"
  then have "scanStream c (sp # inp) = scanStream c inp"
    by (simp add: scanStream_def)
  then have "Next c (sp # inp) = Next c inp"
    by (simp add: Next.simps[of c "sp # inp"] Next.simps[of c inp])
  then show ?thesis
    by (simp add: Split_loop.simps[of c "sp # inp"] Split_loop.simps[of c inp])
qed

lemma Split_loop_join_spaces:
  "\<forall>w \<in> set ws. plain_word c w \<Longrightarrow> ClassifyRune c 32 = spaceRuneClass \<Longrightarrow>
     Split_loop c (join_spaces ws) subStrings = (subStrings @ ws, None)"
proof (induction ws arbitrary: subStrings rule: join_spaces.induct)
  case 1
  have "Next c [] = ([], Some EOF, [])"
    by (simp add: Next.simps[of c "[]"] scanStream_def)
  then show ?case by (simp add: Split_loop.simps[of c "[]"])
next
  case (2 w)
  then have "Next c (w @ []) = (w, None, [])" by (intro Next_plain_word) simp_all
  moreover have "Next c [] = ([], Some EOF, [])"
    by (simp add: Next.simps[of c "[]"] scanStream_def)
  ultimately show ?case
    by (simp add: Split_loop.simps[of c w] Split_loop.simps[of c "[]"])
next
  case (3 w w' ws)
  from "3.prems" have "Next c (w @ 32 # join_spaces (w' # ws)) = (w, None, 32 # join_spaces (w' # ws))"
    by (intro Next_plain_word) simp_all
  then have "Split_loop c (join_spaces (w # w' # ws)) subStrings
      = Split_loop c (32 # join_spaces (w' # ws)) (subStrings @ [w])"
    by (simp add: Split_loop.simps[of c "w @ 32 # join_spaces (w' # ws)"])
  also have "\<dots> = Split_loop c (join_spaces (w' # ws)) (subStrings @ [w])"
    by (rule Split_loop_skip_space[OF "3.prems"(2)])
  also have "\<dots> = ((subStrings @ [w]) @ w' # ws, None)"
    using "3.prems" by (intro "3.IH") simp_all
  finally show ?case by simp
qed

lemma Split_loop_round_trip:
  "needs_no_quoting c inp \<Longrightarrow> ClassifyRune c 32 = spaceRuneClass \<Longrightarrow>
     snd (Split_loop c inp []) = None
     \<and> Split_loop c (join_spaces (fst (Split_loop c inp []))) [] = Split_loop c inp []"
proof -
  assume nq: "needs_no_quoting c inp" and sp: "ClassifyRune c 32 = spaceRuneClass"
  from Split_loop_no_quoting[OF nq, of "[]"] obtain ws
    where ws: "\<forall>w \<in> set ws. plain_word c w" and s: "Split_loop c inp [] = (ws, None)"
    by auto
  from Split_loop_join_spaces[OF ws sp, of "[]"] s show ?thesis by simp
qed

text \<open>
  C9. For every input whose runes are all ordinary, whitespace or the comment marker under the
  default classifier (no quote, no escape, no unknown rune), \<^verbatim>\<open>Split\<close> succeeds, and
  splitting the words re-joined with single spaces gives the same words and again no error;
  this covers in particular the inputs made of ordinary runes and whitespace only. More
  generally, for every input on which \<^verbatim>\<open>Split\<close> succeeds with plain words only (whatever
  quoting the input used to write them), splitting the re-joined words gives these words
  back. Both hold in both snapshots.
\<close>

theorem Split_round_trip:
  "(needs_no_quoting NewDefaultClassifier inp \<longrightarrow>
      snd (Split inp) = None \<and> Split (join_spaces (fst (Split inp))) = Split inp)
   \<and> (Split inp = (ws, None) \<longrightarrow> (\<forall>w \<in> set ws. plain_word NewDefaultClassifier w) \<longrightarrow>
      Split (join_spaces ws) = (ws, None))
   \<and> (needs_no_quoting NewDefaultClassifier_shlex_go inp \<longrightarrow>
      snd (Split_shlex_go inp) = None
      \<and> Split_shlex_go (join_spaces (fst (Split_shlex_go inp))) = Split_shlex_go inp)
   \<and> (Split_shlex_go inp = (ws, None) \<longrightarrow>
      (\<forall>w \<in> set ws. plain_word NewDefaultClassifier_shlex_go w) \<longrightarrow>
      Split_shlex_go (join_spaces ws) = (ws, None))"
proof -
  have sp: "ClassifyRune NewDefaultClassifier 32 = spaceRuneClass"
    "ClassifyRune NewDefaultClassifier_shlex_go 32 = spaceRuneClass"
    by (simp_all add: NewDefaultClassifier_def NewDefaultClassifier_shlex_go_def
        ClassifyRune_defaultClassifierOver)
  have A: "snd (Split inp) = None \<and> Split (join_spaces (fst (Split inp))) = Split inp"
    if "needs_no_quoting NewDefaultClassifier inp"
    using Split_loop_round_trip[OF that sp(1)] unfolding Split_def .
  have B: "Split (join_spaces ws) = (ws, None)"
    if "\<forall>w \<in> set ws. plain_word NewDefaultClassifier w"
    using Split_loop_join_spaces[OF that sp(1), of "[]"] unfolding Split_def by simp
  have C: "snd (Split_shlex_go inp) = None
      \<and> Split_shlex_go (join_spaces (fst (Split_shlex_go inp))) = Split_shlex_go inp"
    if "needs_no_quoting NewDefaultClassifier_shlex_go inp"
    using Split_loop_round_trip[OF that sp(2)] unfolding Split_shlex_go_def .
  have D: "Split_shlex_go (join_spaces ws) = (ws, None)"
    if "\<forall>w \<in> set ws. plain_word NewDefaultClassifier_shlex_go w"
    using Split_loop_join_spaces[OF that sp(2), of "[]"] unfolding Split_shlex_go_def by simp
  from A B C D show ?thesis by blast
qed

theorem Split_round_trip_witness:
  \<open>needs_no_quoting NewDefaultClassifier (runes ''  one two#x   #c d\<newline>three '')
   \<and> Split (runes ''  one two#x   #c d\<newline>three '')
       = ([runes ''one'', runes ''two#x'', runes ''three''], None)
   \<and> join_spaces [runes ''one'', runes ''two#x'', runes ''three''] = runes ''one two#x three''
   \<and> Split (runes ''one two#x three'') = ([runes ''one'', runes ''two#x'', runes ''three''], None)
   \<and> Split (runes ''"abc"   'd'e'') = ([runes ''abc'', runes ''de''], None)
   \<and> plain_word NewDefaultClassifier (runes ''abc'')
   \<and> plain_word NewDefaultClassifier (runes ''de'')
   \<and> Split (join_spaces [runes ''abc'', runes ''de'']) = ([runes ''abc'', runes ''de''], None)
   \<and> needs_no_quoting NewDefaultClassifier_shlex_go (runes ''a  b'')
   \<and> Split_shlex_go (runes ''a  b'') = ([runes ''a'', runes ''b''], None)
   \<and> plain_word NewDefaultClassifier_shlex_go (runes ''a'')
   \<and> plain_word NewDefaultClassifier_shlex_go (runes ''b'')
   \<and> Split_shlex_go (join_spaces [runes ''a'', runes ''b'']) = ([runes ''a'', runes ''b''], None)\<close>
proof -
  have h: \<open>needs_no_quoting NewDefaultClassifier (runes ''  one two#x   #c d\<newline>three '')\<close>
    \<open>needs_no_quoting NewDefaultClassifier_shlex_go (runes ''a  b'')\<close>
    by (simp_all add: needs_no_quoting_def default_eval)
  have v: \<open>Split (runes ''  one two#x   #c d\<newline>three '')
       = ([runes ''one'', runes ''two#x'', runes ''three''], None)\<close>
    \<open>Split (runes ''"abc"   'd'e'') = ([runes ''abc'', runes ''de''], None)\<close>
    \<open>Split_shlex_go (runes ''a  b'') = ([runes ''a'', runes ''b''], None)\<close>
    by (simp_all add: default_eval)
  have q: \<open>plain_word NewDefaultClassifier (runes ''abc'')\<close>
    \<open>plain_word NewDefaultClassifier (runes ''de'')\<close>
    \<open>plain_word NewDefaultClassifier_shlex_go (runes ''a'')\<close>
    \<open>plain_word NewDefaultClassifier_shlex_go (runes ''b'')\<close>
    by (simp_all add: plain_word_def unquoted_run_def default_eval)
  then have p: \<open>\<forall>w \<in> set [runes ''abc'', runes ''de'']. plain_word NewDefaultClassifier w\<close>
    \<open>\<forall>w \<in> set [runes ''a'', runes ''b'']. plain_word NewDefaultClassifier_shlex_go w\<close>
    by simp_all
  have j: \<open>join_spaces [runes ''one'', runes ''two#x'', runes ''three''] = runes ''one two#x three''\<close>
    by (simp add: runes_def)
  from h(1) v(1) Split_round_trip[of \<open>runes ''  one two#x   #c d\<newline>three ''\<close> \<open>[]\<close>]
  have r1: \<open>Split (runes ''one two#x three'') = ([runes ''one'', runes ''two#x'', runes ''three''], None)\<close>
    using j by simp
  from v(2) p(1) Split_round_trip[of \<open>runes ''"abc"   'd'e''\<close> \<open>[runes ''abc'', runes ''de'']\<close>]
  have r2: \<open>Split (join_spaces [runes ''abc'', runes ''de'']) = ([runes ''abc'', runes ''de''], None)\<close>
    by blast
  from h(2) v(3) p(2) Split_round_trip[of \<open>runes ''a  b''\<close> \<open>[runes ''a'', runes ''b'']\<close>]
  have r3: \<open>Split_shlex_go (join_spaces [runes ''a'', runes ''b'']) = ([runes ''a'', runes ''b''], None)\<close>
    by blast
  from h v q j r1 r2 r3 show ?thesis by blast
qed

end
